theory Spec2Isabelle
  imports Complex_Main "HOL-Library.AList"
begin

section \<open>Transit detection and catalog enumeration (utils/common.py)\<close>

text \<open>
  An instant is a point on the time axis, counted in days (the Modified Julian Date that
  \<^verbatim>\<open>TimeObj.get_mjd\<close> returns); a duration is a difference of instants, also in days
  (what \<^verbatim>\<open>TimeDeltaObj.total_days\<close> returns).  The arithmetic is exact: the rounding of
  the floating-point numbers of the source is outside this development.  The display time
  zone that a \<^verbatim>\<open>TimeObj\<close> carries plays no part in any comparison and is left out.
\<close>

type_synonym instant = rat
type_synonym duration = rat

datatype error = IndexError | ValueError | TypeError

subsection \<open>The transit matcher: \<^verbatim>\<open>find_sat_events\<close>\<close>

text \<open>
  Modelled from the spec: the class \<^verbatim>\<open>DayTransits\<close> (utils/transit.py) is not among the
  sources.  The source constructs it from the observatory/satellite pair and the altitude
  limit, assigns its \<^verbatim>\<open>start\<close>, reads and assigns its \<^verbatim>\<open>end\<close> (\<^verbatim>\<open>None\<close> until
  assigned) and calls its \<^verbatim>\<open>add\<close> with a culmination time.  Following section 3 of the
  specification a transit owns a start, an optional end and an ordered collection of
  culmination instants, and following section 4.2 step 3 (and section 9) \<^verbatim>\<open>add\<close> records
  the instant unconditionally.
\<close>

record 'p DayTransits =
  obs_sat :: 'p
  limit_alt :: rat
  start :: instant
  end_t :: "instant option"
  culminations :: "instant list"

definition add :: "'p DayTransits \<Rightarrow> instant \<Rightarrow> 'p DayTransits" where
  "add test_trans time = test_trans\<lparr>culminations := culminations test_trans @ [time]\<rparr>"

text \<open>
  A raw event is a pair of a time and a flag; the source compares the flag with the
  numbers 0 (rise), 1 (culminate) and 2 (set) and ignores every other value.
\<close>

type_synonym event = "instant \<times> nat"

text \<open>Lines 85 to 89: one new transit for every event with flag 0, in input order.\<close>

fun open_transits :: "'p \<Rightarrow> rat \<Rightarrow> event list \<Rightarrow> 'p DayTransits list" where
  "open_transits in_obs_sat alt [] = []"
| "open_transits in_obs_sat alt ((time, flag) # events) =
     (if flag = 0
      then \<lparr>obs_sat = in_obs_sat, limit_alt = alt, start = time, end_t = None,
             culminations = []\<rparr> # open_transits in_obs_sat alt events
      else open_transits in_obs_sat alt events)"

text \<open>
  Lines 96 to 99, the test of the \<^verbatim>\<open>while\<close> loop's body: the end is \<^verbatim>\<open>None\<close> or earlier
  than the tested time, and the start is earlier than the tested time.
\<close>

definition eligible :: "instant \<Rightarrow> 'p DayTransits \<Rightarrow> bool" where
  "eligible test_time tr \<longleftrightarrow>
     (case end_t tr of None \<Rightarrow> True | Some e \<Rightarrow> e < test_time) \<and> start tr < test_time"

text \<open>
  Lines 94 to 103, the \<^verbatim>\<open>while\<close> loop.  It sets the index back to 0 after every
  assignment, so that it ends is not evident from its shape: the loop is a partial
  function, whose value \<open>None\<close> stands for a run that never ends.
\<close>

partial_function (option) scan_transits ::
  "instant \<Rightarrow> 'p DayTransits list \<Rightarrow> nat \<Rightarrow> 'p DayTransits list option" where
  "scan_transits test_time rv_transits test_i =
     (if test_i < length rv_transits
      then (if eligible test_time (rv_transits ! test_i)
            then scan_transits test_time
                   (rv_transits[test_i := (rv_transits ! test_i)\<lparr>end_t := Some test_time\<rparr>]) 0
            else scan_transits test_time rv_transits (test_i + 1))
      else Some rv_transits)"

text \<open>Lines 91 to 103: the events with flag 2, in input order, each through the loop.\<close>

fun match_sets :: "event list \<Rightarrow> 'p DayTransits list \<Rightarrow> 'p DayTransits list option" where
  "match_sets [] rv_transits = Some rv_transits"
| "match_sets ((time, flag) # events) rv_transits =
     (if flag = 2
      then (case scan_transits time rv_transits 0 of
              None \<Rightarrow> None
            | Some rv_transits' \<Rightarrow> match_sets events rv_transits')
      else match_sets events rv_transits)"

text \<open>Lines 106 to 108: every event with flag 1 is added to the transit.\<close>

fun add_culminations :: "event list \<Rightarrow> 'p DayTransits \<Rightarrow> 'p DayTransits" where
  "add_culminations [] test_trans = test_trans"
| "add_culminations ((time, flag) # events) test_trans =
     (if flag = 1 then add_culminations events (add test_trans time)
      else add_culminations events test_trans)"

text \<open>
  The whole function, from the list of events that the propagator's \<^verbatim>\<open>find_events\<close>
  returned (the propagator itself is an external collaborator).
\<close>

definition find_sat_events :: "'p \<Rightarrow> rat \<Rightarrow> event list \<Rightarrow> 'p DayTransits list option" where
  "find_sat_events in_obs_sat alt events_zipped =
     (case match_sets events_zipped (open_transits in_obs_sat alt events_zipped) of
        None \<Rightarrow> None
      | Some rv_transits \<Rightarrow> Some (map (add_culminations events_zipped) rv_transits))"

text \<open>What one run of the loop does to a single transit.\<close>

definition close_transit :: "instant \<Rightarrow> 'p DayTransits \<Rightarrow> 'p DayTransits" where
  "close_transit test_time tr =
     (if eligible test_time tr then tr\<lparr>end_t := Some test_time\<rparr> else tr)"

text \<open>
  The rule of the claim about SET matching, in the specification's words: the end is still
  null or later than the SET instant, and the start is strictly before the SET instant.
\<close>

definition claimed_eligible :: "instant \<Rightarrow> 'p DayTransits \<Rightarrow> bool" where
  "claimed_eligible test_time tr \<longleftrightarrow>
     (case end_t tr of None \<Rightarrow> True | Some e \<Rightarrow> test_time < e) \<and> start tr < test_time"

text \<open>
  The invariant of section 3 of the specification on one transit: culmination instants
  are recorded only when the end is set, and each lies strictly between start and end.
\<close>

definition culminations_inside :: "'p DayTransits \<Rightarrow> bool" where
  "culminations_inside tr =
     (case end_t tr of
        None \<Rightarrow> culminations tr = []
      | Some e \<Rightarrow> list_all (\<lambda>c. start tr < c \<and> c < e) (culminations tr))"

text \<open>A transit of the unit pair at an altitude limit of 30 degrees, for the examples.\<close>

definition transit :: "instant \<Rightarrow> instant option \<Rightarrow> instant list \<Rightarrow> unit DayTransits" where
  "transit s e cs = \<lparr>obs_sat = (), limit_alt = 30, start = s, end_t = e, culminations = cs\<rparr>"

text \<open>The times of the events with a given flag, in input order.\<close>

definition flagged :: "nat \<Rightarrow> event list \<Rightarrow> instant list" where
  "flagged k events = map fst (filter (\<lambda>ev. snd ev = k) events)"

subsection \<open>The time grid builder: \<^verbatim>\<open>make_bounded_time_list\<close>\<close>

text \<open>
  Modelled from the spec: \<^verbatim>\<open>get_off_list\<close> (utils/time_utils.py) is not among the
  sources.  Section 4.1 of the specification has the samples spaced by the step from the
  start on (a sample may fall on either bound), and has the builder fail when the step is
  not positive or the end is not after the start; \<^verbatim>\<open>make_bounded_time_list\<close> itself
  holds no check, so the failure is the helper's.  The fourth argument (5 in this call)
  is passed on unread.
\<close>

definition get_off_list :: "instant \<Rightarrow> instant \<Rightarrow> duration \<Rightarrow> nat \<Rightarrow> error + instant list" where
  "get_off_list start_time end_time step_size mode =
     (if step_size \<le> 0 \<or> end_time \<le> start_time then Inl ValueError
      else Inr (map (\<lambda>k. start_time + of_nat k * step_size)
                  [0..<Suc (nat \<lfloor>(end_time - start_time) / step_size\<rfloor>)]))"

text \<open>
  Lines 26 to 35 on the helper's result: the samples strictly between the bounds, the
  start put in front (\<^verbatim>\<open>appendleft\<close>) and the end put behind (\<^verbatim>\<open>append\<close>).
\<close>

definition bounded :: "instant \<Rightarrow> instant \<Rightarrow> instant list \<Rightarrow> instant list" where
  "bounded start_time end_time off_list =
     start_time # filter (\<lambda>x. start_time < x \<and> x < end_time) off_list @ [end_time]"

definition make_bounded_time_list :: "instant \<Rightarrow> instant \<Rightarrow> duration \<Rightarrow> error + instant list" where
  "make_bounded_time_list start_time end_time step_size =
     (case get_off_list start_time end_time step_size 5 of
        Inl e \<Rightarrow> Inl e
      | Inr off_list \<Rightarrow> Inr (bounded start_time end_time off_list))"

subsection \<open>The catalog builder: \<^verbatim>\<open>ObservatorySatelliteFactory\<close>\<close>

text \<open>
  A tracked object is skyfield's \<^verbatim>\<open>EarthSatellite\<close>.  The source reads three of its
  attributes: \<^verbatim>\<open>name\<close>, \<^verbatim>\<open>model.jdsatepoch\<close> (a Julian date number of the element
  set, the key of deduplication and of sorting) and \<^verbatim>\<open>epoch\<close> (the reference time of
  the element set as a time object, the start of a chained window).  The two are separate
  fields: the source never derives one from the other, and two records whose epochs
  differ can hold the same \<^verbatim>\<open>jdsatepoch\<close>.  The field \<open>elements\<close> stands for the rest
  of the record.
\<close>

record EarthSatellite =
  name :: string
  jdsatepoch :: rat
  epoch :: instant
  elements :: nat

text \<open>A record from its four fields, for the examples.\<close>

definition elset :: "string \<Rightarrow> rat \<Rightarrow> instant \<Rightarrow> nat \<Rightarrow> EarthSatellite" where
  "elset n jd e k = \<lparr>name = n, jdsatepoch = jd, epoch = e, elements = k\<rparr>"

datatype sat_list =
  Chained "(instant \<times> duration \<times> EarthSatellite) list"
| Plain "EarthSatellite list"

record ObservatorySatelliteFactory =
  start_date :: "string option"
  today_utc :: instant
  start_utc :: "instant option"
  end_days :: duration
  end_utc :: "instant option"
  tles :: "string list"
  chain_tles :: bool
  active_sats :: "EarthSatellite list"
  sat_list :: "sat_list option"

text \<open>
  Lines 153 to 162.  \<^verbatim>\<open>datetime.strptime\<close> with the format \<^verbatim>\<open>%Y-%m-%d\<close> (followed by
  the \<^verbatim>\<open>TimeObj\<close> constructor) and \<^verbatim>\<open>TimeObj.get_start_day\<close> are parameters.  The
  start date is typed \<^verbatim>\<open>Optional[str]\<close>: on \<^verbatim>\<open>None\<close> the parser raises \<^verbatim>\<open>TypeError\<close>,
  which the \<^verbatim>\<open>except ValueError\<close> clause does not catch.
\<close>

definition set_start :: "instant \<Rightarrow> ObservatorySatelliteFactory \<Rightarrow> ObservatorySatelliteFactory" where
  "set_start s self = self\<lparr>start_utc := Some s, end_utc := Some (s + end_days self)\<rparr>"

definition make_start_utc ::
  "(string \<Rightarrow> error + instant) \<Rightarrow> (instant \<Rightarrow> instant) \<Rightarrow>
   ObservatorySatelliteFactory \<Rightarrow> error + ObservatorySatelliteFactory" where
  "make_start_utc strptime get_start_day self =
     (case (case start_date self of None \<Rightarrow> Inl TypeError | Some s \<Rightarrow> strptime s) of
        Inr d \<Rightarrow> Inr (set_start (get_start_day d) self)
      | Inl e \<Rightarrow>
          (if e = ValueError then Inr (set_start (get_start_day (today_utc self)) self)
           else Inl e))"

text \<open>
  Lines 178 to 181.  The key of a record is the string
  \<^verbatim>\<open>sat.name + "_" + str(sat.model.jdsatepoch)\<close>.  The text of a number holds no
  underscore and differs for different numbers, so two such strings are equal exactly
  when the names and the numbers are: the key is modelled as the pair.  A Python
  dictionary keeps its keys in the order of their first insertion and the value last
  assigned to a key, which is \<open>AList.update\<close> on an association list.
\<close>

definition sat_key :: "EarthSatellite \<Rightarrow> string \<times> rat" where
  "sat_key sat = (name sat, jdsatepoch sat)"

definition uniq_sats :: "EarthSatellite list \<Rightarrow> ((string \<times> rat) \<times> EarthSatellite) list" where
  "uniq_sats local_active_sats =
     foldl (\<lambda>d sat. AList.update (sat_key sat) sat d) [] local_active_sats"

definition dedup :: "EarthSatellite list \<Rightarrow> EarthSatellite list" where
  "dedup local_active_sats = map snd (uniq_sats local_active_sats)"

text \<open>
  The identity key of the claim about deduplication, in the specification's words: the
  pair of the name and the epoch.
\<close>

definition claimed_key :: "EarthSatellite \<Rightarrow> string \<times> instant" where
  "claimed_key sat = (name sat, epoch sat)"

text \<open>
  Lines 164 to 181.  The loader \<^verbatim>\<open>make_locally_active_sats\<close> is an external
  collaborator, here a parameter from the effective start and a source to the records of
  that source (its four flags are fixed for one factory).
\<close>

definition make_active_sats ::
  "(instant option \<Rightarrow> string \<Rightarrow> EarthSatellite list) \<Rightarrow>
   ObservatorySatelliteFactory \<Rightarrow> ObservatorySatelliteFactory" where
  "make_active_sats make_locally_active_sats self =
     self\<lparr>active_sats :=
       dedup (concat (map (make_locally_active_sats (start_utc self)) (tles self)))\<rparr>"

text \<open>
  Lines 199 to 201: the records grouped by name in a \<^verbatim>\<open>defaultdict(list)\<close>, the groups
  in the order in which their names first occur.
\<close>

definition organized_sats :: "EarthSatellite list \<Rightarrow> (string \<times> EarthSatellite list) list" where
  "organized_sats sats =
     foldl (\<lambda>d sat.
              AList.update (name sat)
                ((case map_of d (name sat) of None \<Rightarrow> [] | Some l \<Rightarrow> l) @ [sat]) d)
       [] sats"

text \<open>\<^verbatim>\<open>numpy.diff\<close> of a one-dimensional array: the differences of neighbours.\<close>

fun numpy_diff :: "rat list \<Rightarrow> rat list" where
  "numpy_diff (a # b # xs) = (b - a) # numpy_diff (b # xs)"
| "numpy_diff xs = []"

text \<open>
  Lines 205 to 213, the body of the loop over the groups.  Python's \<^verbatim>\<open>sorted\<close> is stable,
  as \<open>sort_key\<close> is.  Comparing a time with an end date that is \<^verbatim>\<open>None\<close> raises
  \<^verbatim>\<open>TypeError\<close>; \<^verbatim>\<open>start_dates[-1]\<close> on an empty list raises \<^verbatim>\<open>IndexError\<close>; \<^verbatim>\<open>zip\<close>
  stops with its shortest argument.
\<close>

definition chain_group ::
  "instant option \<Rightarrow> EarthSatellite list \<Rightarrow> error + (instant \<times> duration \<times> EarthSatellite) list" where
  "chain_group end_date sats =
     (let sorted_sats = sort_key jdsatepoch sats;
          start_dates = map epoch sorted_sats
      in case end_date of
           None \<Rightarrow> (if start_dates = [] then Inl IndexError else Inl TypeError)
         | Some end_time \<Rightarrow>
             (let start_dates = filter (\<lambda>x. x < end_time) start_dates;
                  dates_diff = numpy_diff start_dates
              in if start_dates = [] then Inl IndexError
                 else Inr (zip start_dates
                            (zip (dates_diff @ [end_time - last start_dates]) sorted_sats))))"

text \<open>Lines 203 to 213: the loop over the groups, extending \<^verbatim>\<open>chained_sats\<close>.\<close>

fun chain_groups ::
  "instant option \<Rightarrow> EarthSatellite list list \<Rightarrow> (instant \<times> duration \<times> EarthSatellite) list \<Rightarrow>
   error + (instant \<times> duration \<times> EarthSatellite) list" where
  "chain_groups end_date [] chained_sats = Inr chained_sats"
| "chain_groups end_date (sats # groups) chained_sats =
     (case chain_group end_date sats of
        Inl e \<Rightarrow> Inl e
      | Inr slots \<Rightarrow> chain_groups end_date groups (chained_sats @ slots))"

text \<open>Lines 195 to 216.\<close>

definition make_sat_list ::
  "ObservatorySatelliteFactory \<Rightarrow> error + ObservatorySatelliteFactory" where
  "make_sat_list self =
     (if sat_list self \<noteq> None then Inr self
      else if chain_tles self
      then (case chain_groups (end_utc self) (map snd (organized_sats (active_sats self))) [] of
              Inl e \<Rightarrow> Inl e
            | Inr chained_sats \<Rightarrow> Inr (self\<lparr>sat_list := Some (Chained chained_sats)\<rparr>))
      else Inr (self\<lparr>sat_list := Some (Plain (active_sats self))\<rparr>))"

text \<open>
  An association list of records in which every key is the key of its record, and the
  step of the dictionary comprehension; both serve the proofs about deduplication.
\<close>

definition keyed :: "((string \<times> rat) \<times> EarthSatellite) list \<Rightarrow> bool" where
  "keyed al \<longleftrightarrow> list_all (\<lambda>(k, v). k = sat_key v) al"

abbreviation (input) upd where
  "upd \<equiv> (\<lambda>d sat. AList.update (sat_key sat) sat d)"

section \<open>Properties\<close>

subsection \<open>The transit matcher\<close>

lemma eligible_closed: "\<not> eligible t (tr\<lparr>end_t := Some t\<rparr>)"
  by (simp add: eligible_def)

lemma filter_update_less:
  "i < length xs \<Longrightarrow> P (xs ! i) \<Longrightarrow> \<not> P y \<Longrightarrow>
   length (filter P (xs[i := y])) < length (filter P xs)"
proof (induction xs arbitrary: i)
  case Nil
  then show ?case by simp
next
  case (Cons x xs)
  show ?case
  proof (cases i)
    case 0
    with Cons.prems show ?thesis by simp
  next
    case (Suc k)
    with Cons.prems have "length (filter P (xs[k := y])) < length (filter P xs)"
      by (intro Cons.IH) simp_all
    with Suc show ?thesis by simp
  qed
qed

lemma map_close_update:
  "i < length ts \<Longrightarrow> eligible t (ts ! i) \<Longrightarrow>
   map (close_transit t) (ts[i := (ts ! i)\<lparr>end_t := Some t\<rparr>]) = map (close_transit t) ts"
  by (rule nth_equalityI) (auto simp: nth_list_update close_transit_def eligible_def)

lemma map_close_none: "\<forall>j<length ts. \<not> eligible t (ts ! j) \<Longrightarrow> map (close_transit t) ts = ts"
  by (rule nth_equalityI) (auto simp: close_transit_def)

lemma scan_transits_from:
  "\<forall>j<i. \<not> eligible t (ts ! j) \<Longrightarrow> i \<le> length ts \<Longrightarrow>
   scan_transits t ts i = Some (map (close_transit t) ts)"
proof (induction "length (filter (eligible t) ts) * Suc (length ts) + (length ts - i)"
       arbitrary: ts i rule: less_induct)
  case less
  show ?case
  proof (cases "i < length ts")
    case False
    with less.prems have "i = length ts" by simp
    with less.prems have "map (close_transit t) ts = ts"
      by (intro map_close_none) simp
    with False show ?thesis by (subst scan_transits.simps) simp
  next
    case True
    show ?thesis
    proof (cases "eligible t (ts ! i)")
      case el: True
      let ?ts = "ts[i := (ts ! i)\<lparr>end_t := Some t\<rparr>]"
      have "length (filter (eligible t) ?ts) < length (filter (eligible t) ts)"
        using True el by (intro filter_update_less) (simp_all add: eligible_closed)
      then have "Suc (length (filter (eligible t) ?ts)) \<le> length (filter (eligible t) ts)" by simp
      then have "Suc (length (filter (eligible t) ?ts)) * Suc (length ts)
                 \<le> length (filter (eligible t) ts) * Suc (length ts)"
        by (rule mult_le_mono1)
      then have m: "length (filter (eligible t) ?ts) * Suc (length ?ts) + (length ?ts - 0)
            < length (filter (eligible t) ts) * Suc (length ts) + (length ts - i)"
        by simp
      have "scan_transits t ?ts 0 = Some (map (close_transit t) ?ts)"
        by (rule less.hyps[OF m]) simp_all
      with True el show ?thesis
        by (subst scan_transits.simps) (simp add: map_close_update)
    next
      case nel: False
      have m: "length (filter (eligible t) ts) * Suc (length ts) + (length ts - Suc i)
            < length (filter (eligible t) ts) * Suc (length ts) + (length ts - i)"
        using True by simp
      have "scan_transits t ts (Suc i) = Some (map (close_transit t) ts)"
        using less.prems nel True by (intro less.hyps[OF m]) (auto simp: less_Suc_eq)
      with True nel show ?thesis
        by (subst scan_transits.simps) simp
    qed
  qed
qed

lemma scan_transits_zero: "scan_transits t ts 0 = Some (map (close_transit t) ts)"
  by (rule scan_transits_from) simp_all

lemma scan_transits_ends: "\<exists>ts'. scan_transits t ts i = Some ts'"
proof (induction "length (filter (eligible t) ts) * Suc (length ts) + (length ts - i)"
       arbitrary: ts i rule: less_induct)
  case less
  show ?case
  proof (cases "i < length ts \<and> \<not> eligible t (ts ! i)")
    case True
    have m: "length (filter (eligible t) ts) * Suc (length ts) + (length ts - Suc i)
          < length (filter (eligible t) ts) * Suc (length ts) + (length ts - i)"
      using True by (intro add_strict_left_mono) linarith
    from less.hyps[OF m] True show ?thesis
      by (subst scan_transits.simps) simp
  next
    case False
    then show ?thesis
      by (subst scan_transits.simps) (simp add: scan_transits_zero)
  qed
qed

lemma match_sets_eq:
  "match_sets events ts = Some (foldl (\<lambda>ts t. map (close_transit t) ts) ts (flagged 2 events))"
  by (induction events ts rule: match_sets.induct) (simp_all add: flagged_def scan_transits_zero)

lemma scan_first:
  assumes "i < length ts" "eligible t (ts ! i)" "\<forall>j<i. \<not> eligible t (ts ! j)"
  shows "scan_transits t ts 0 = scan_transits t (ts[i := (ts ! i)\<lparr>end_t := Some t\<rparr>]) 0"
proof -
  have "k \<le> i \<Longrightarrow> scan_transits t ts (i - k) = scan_transits t ts i" for k
  proof (induction k)
    case 0
    then show ?case by simp
  next
    case (Suc k)
    then have "i - Suc k < i" "i - Suc k < length ts" "Suc (i - Suc k) = i - k"
      using assms(1) by simp_all
    with assms(3) Suc show ?case
      by (subst scan_transits.simps) simp
  qed
  from this[of i] have "scan_transits t ts 0 = scan_transits t ts i" by simp
  also have "\<dots> = scan_transits t (ts[i := (ts ! i)\<lparr>end_t := Some t\<rparr>]) 0"
    using assms(1,2) by (subst scan_transits.simps) simp
  finally show ?thesis .
qed

lemma add_culminations_eq:
  "add_culminations events tr = tr\<lparr>culminations := culminations tr @ flagged 1 events\<rparr>"
  by (induction events tr rule: add_culminations.induct) (simp_all add: flagged_def add_def)

lemma start_open: "map start (open_transits p a events) = flagged 0 events"
  by (induction p a events rule: open_transits.induct) (simp_all add: flagged_def)


lemma end_open: "map end_t (open_transits p a events) = map (\<lambda>_. None) (flagged 0 events)"
  by (induction p a events rule: open_transits.induct) (simp_all add: flagged_def)

text \<open>
  Claim C1, as amended.  The SET events are processed in their input order, each by a scan
  from index 0.  The scan overwrites the end of the first transit in creation order whose
  end is still null or earlier than the SET instant and whose start is strictly before the
  SET instant, and goes on as the scan from index 0 of the list so changed; at its end
  every such transit has the SET instant as its end and no other transit is changed.  A SET
  event for which no transit qualifies leaves the list as it is.
\<close>

theorem set_matching:
  "match_sets events rv = Some (foldl (\<lambda>ts t. map (close_transit t) ts) rv (flagged 2 events))
   \<and> scan_transits t ts 0 = Some (map (close_transit t) ts)
   \<and> (i < length ts \<and> eligible t (ts ! i) \<and> (\<forall>j<i. \<not> eligible t (ts ! j))
        \<longrightarrow> scan_transits t ts 0 = scan_transits t (ts[i := (ts ! i)\<lparr>end_t := Some t\<rparr>]) 0)
   \<and> ((\<forall>tr\<in>set us. \<not> eligible t tr) \<longrightarrow> scan_transits t us 0 = Some us)"
proof -
  have "scan_transits t us 0 = Some us" if "\<forall>tr\<in>set us. \<not> eligible t tr"
    using that by (simp add: scan_transits_zero map_close_none)
  then show ?thesis
    using match_sets_eq scan_transits_zero scan_first by blast
qed

text \<open>The theorem of C1 at a list of two transits of which the second qualifies.\<close>

theorem set_matching_witness:
  "(1::nat) < length [transit 12 None [], transit 0 (Some 5) []]
   \<and> eligible 10 ([transit 12 None [], transit 0 (Some 5) []] ! 1)
   \<and> \<not> eligible 10 ([transit 12 None [], transit 0 (Some 5) []] ! 0)
   \<and> scan_transits 10 [transit 12 None [], transit 0 (Some 5) []] 0
       = scan_transits 10 [transit 12 None [], transit 0 (Some 10) []] 0
   \<and> scan_transits 10 [transit 12 None [], transit 0 (Some 5) []] 0
       = Some [transit 12 None [], transit 0 (Some 10) []]
   \<and> \<not> eligible 10 (transit 12 None [])
   \<and> scan_transits 10 [transit 12 None []] 0 = Some [transit 12 None []]
   \<and> match_sets [(0, 0), (5, 2), (7, 1), (10, 2)] [transit 0 None []]
       = Some [transit 0 (Some 10) []]"
  using set_matching [of "[(0, 0), (5, 2), (7, 1), (10, 2)]" "[transit 0 None []]" 10
      "[transit 12 None [], transit 0 (Some 5) []]" 1 "[transit 12 None []]"]
  by (simp add: transit_def eligible_def close_transit_def flagged_def scan_transits_zero)

text \<open>
  Claim C1 as stated fails.  After RISE at 0 and SET at 5 the transit ends at 5; this end
  is neither null nor later than 10, so by the claim's rule the SET at 10 closes nothing;
  the scan overwrites the end with 10.
\<close>

theorem later_end_counterexample:
  "match_sets [(0, 0), (5, 2)] [transit 0 None []] = Some [transit 0 (Some 5) []]
   \<and> \<not> claimed_eligible 10 (transit 0 (Some 5) [])
   \<and> scan_transits 10 [transit 0 (Some 5) []] 0 = Some [transit 0 (Some 10) []]
   \<and> find_sat_events () 30 [(0, 0), (5, 2), (10, 2)] = Some [transit 0 (Some 10) []]"
  by (simp add: find_sat_events_def match_sets_eq scan_transits_zero flagged_def transit_def
      close_transit_def eligible_def claimed_eligible_def add_culminations_eq)

lemma culminations_close: "culminations (close_transit t tr) = culminations tr"
  by (simp add: close_transit_def)

lemma culminations_fold:
  "\<forall>tr\<in>set ts. culminations tr = [] \<Longrightarrow>
   \<forall>tr\<in>set (foldl (\<lambda>ts t. map (close_transit t) ts) ts sets). culminations tr = []"
proof (induction sets arbitrary: ts)
  case Nil
  then show ?case by simp
next
  case (Cons t sets)
  from Cons.prems have "\<forall>tr\<in>set (map (close_transit t) ts). culminations tr = []"
    by (simp add: culminations_close)
  from Cons.IH[OF this] show ?case by simp
qed

lemma culminations_open: "\<forall>tr\<in>set (open_transits p a events). culminations tr = []"
  by (induction p a events rule: open_transits.induct) simp_all

text \<open>
  Claim C3, as amended.  The culmination instants are attached after the SET events have
  been matched, and every returned transit carries all CULMINATE instants of the input,
  in input order, whatever its start and its end and whether or not its end is set.
\<close>

theorem culminations_on_every_transit:
  "\<exists>ts. match_sets events (open_transits p a events) = Some ts
     \<and> find_sat_events p a events = Some (map (\<lambda>tr. tr\<lparr>culminations := flagged 1 events\<rparr>) ts)"
proof -
  let ?ts = "foldl (\<lambda>ts t. map (close_transit t) ts) (open_transits p a events) (flagged 2 events)"
  have "\<forall>tr\<in>set ?ts. culminations tr = []"
    by (rule culminations_fold) (rule culminations_open)
  then have "map (add_culminations events) ?ts = map (\<lambda>tr. tr\<lparr>culminations := flagged 1 events\<rparr>) ?ts"
    by (simp add: add_culminations_eq)
  then show ?thesis
    by (simp add: find_sat_events_def match_sets_eq)
qed

text \<open>The theorem of C3 at one pass with a rise, a culmination and a set.\<close>

theorem culminations_on_every_transit_witness:
  "\<exists>ts. match_sets [(0, 0), (1, 1), (2, 2)] (open_transits () 30 [(0, 0), (1, 1), (2, 2)]) = Some ts
     \<and> find_sat_events () 30 [(0, 0), (1, 1), (2, 2)] = Some (map (\<lambda>tr. tr\<lparr>culminations := [1]\<rparr>) ts)"
  using culminations_on_every_transit [of "[(0, 0), (1, 1), (2, 2)]" "()" 30]
  by (simp add: flagged_def)

text \<open>
  Claim C3 as stated fails.  With two passes the second transit, from 10 to 12, carries the
  culmination instant 1 of the first pass; a rise without a set gives a transit whose end
  is null and which carries a culmination instant.
\<close>

theorem culminations_inside_counterexample:
  "find_sat_events () 30 [(0, 0), (1, 1), (2, 2), (10, 0), (11, 1), (12, 2)]
     = Some [transit 0 (Some 12) [1, 11], transit 10 (Some 12) [1, 11]]
   \<and> \<not> culminations_inside (transit 10 (Some 12) [1, 11])
   \<and> find_sat_events () 30 [(0, 0), (1, 1)] = Some [transit 0 None [1]]
   \<and> \<not> culminations_inside (transit 0 None [1])"
  by (simp add: find_sat_events_def match_sets_eq flagged_def transit_def
      close_transit_def eligible_def culminations_inside_def add_culminations_eq)

text \<open>
  Claim C7.  The scan ends from every index on every list of transits, and the matcher
  returns a result on every list of events.
\<close>

theorem matcher_terminates:
  "(\<exists>ts'. scan_transits t ts i = Some ts') \<and> (\<exists>rv. find_sat_events p a events = Some rv)"
  by (simp add: scan_transits_ends find_sat_events_def match_sets_eq)

text \<open>
  Claim C10.  When the RISE events of the input are two, the SET events are one, and both
  rise instants are strictly before the set instant, the matcher returns two transits with
  these starts, and the set instant is the end of both.
\<close>

theorem one_set_closes_both:
  assumes "flagged 0 events = [r0, r1]" and "flagged 2 events = [s]" and "r0 < s" and "r1 < s"
  shows "\<exists>rv. find_sat_events p a events = Some rv
           \<and> map start rv = [r0, r1] \<and> map end_t rv = [Some s, Some s]"
proof -
  from start_open[of p a events] end_open[of p a events] assms(1)
  obtain x y where xy: "open_transits p a events = [x, y]" "start x = r0" "start y = r1"
    "end_t x = None" "end_t y = None"
    by (auto simp: map_eq_Cons_conv)
  with assms show ?thesis
    by (simp add: find_sat_events_def match_sets_eq close_transit_def eligible_def
        add_culminations_eq)
qed

text \<open>The theorem of C10 at two rises, a culmination and a set.\<close>

theorem one_set_closes_both_witness:
  "flagged 0 [(0, 0), (1, 0), (2, 1), (3, 2)] = [0, 1] \<and> flagged 2 [(0, 0), (1, 0), (2, 1), (3, 2)] = [3]
   \<and> (0::rat) < 3 \<and> (1::rat) < 3
   \<and> (\<exists>rv. find_sat_events () 30 [(0, 0), (1, 0), (2, 1), (3, 2)] = Some rv
         \<and> map start rv = [0, 1] \<and> map end_t rv = [Some 3, Some 3])"
proof -
  have f: "flagged 0 [(0, 0), (1, 0), (2, 1), (3, 2)] = [0, 1]"
    "flagged 2 [(0, 0), (1, 0), (2, 1), (3, 2)] = [3]"
    by (simp_all add: flagged_def)
  have l: "(0::rat) < 3" "(1::rat) < 3" by simp_all
  from one_set_closes_both [OF f l, of "()" 30] f l show ?thesis by blast
qed

subsection \<open>The time grid builder\<close>

lemma bounded_hd_last: "hd (bounded s e off) = s \<and> last (bounded s e off) = e"
  by (simp add: bounded_def)

lemma bounded_inner:
  "butlast (tl (bounded s e off)) = filter (\<lambda>x. s < x \<and> x < e) off"
  by (simp add: bounded_def butlast_append)

lemma bounded_count:
  "s < e \<Longrightarrow> count_list (bounded s e off) s = 1 \<and> count_list (bounded s e off) e = 1"
  by (simp add: bounded_def count_list_0_iff)

lemma bounded_sorted:
  "s < e \<Longrightarrow> sorted_wrt (<) off \<Longrightarrow> sorted_wrt (<) (bounded s e off)"
  by (auto simp: bounded_def sorted_wrt_append sorted_wrt_filter)

lemma off_list_sorted:
  "0 < step \<Longrightarrow> sorted_wrt (<) (map (\<lambda>k. s + of_nat k * step) [0..<n])" for s step :: rat
  by (simp add: sorted_wrt_map sorted_wrt_mono_rel[OF _ sorted_wrt_upt])

text \<open>
  Claim C5.  For a start before the end and a positive step the builder returns a list
  that begins with the start and ends with the end, holds each of them once, holds
  between them only samples strictly between the bounds, has no duplicates and is
  strictly increasing.
\<close>

theorem grid_shape:
  assumes "start_time < end_time" and "0 < step_size"
  shows "\<exists>xs. make_bounded_time_list start_time end_time step_size = Inr xs
           \<and> hd xs = start_time \<and> last xs = end_time
           \<and> count_list xs start_time = 1 \<and> count_list xs end_time = 1
           \<and> (\<forall>x\<in>set (butlast (tl xs)). start_time < x \<and> x < end_time)
           \<and> distinct xs \<and> sorted_wrt (<) xs"
proof -
  let ?off = "map (\<lambda>k. start_time + of_nat k * step_size)
                [0..<Suc (nat \<lfloor>(end_time - start_time) / step_size\<rfloor>)]"
  let ?xs = "bounded start_time end_time ?off"
  have r: "make_bounded_time_list start_time end_time step_size = Inr ?xs"
    using assms by (simp add: make_bounded_time_list_def get_off_list_def)
  have s: "sorted_wrt (<) ?xs"
    using assms by (intro bounded_sorted off_list_sorted)
  then have d: "distinct ?xs"
    by (simp add: strict_sorted_iff)
  have i: "\<forall>x\<in>set (butlast (tl ?xs)). start_time < x \<and> x < end_time"
    unfolding bounded_inner by simp
  from r s d i bounded_hd_last[of start_time end_time ?off]
    bounded_count[OF assms(1), of ?off]
  show ?thesis by blast
qed

text \<open>
  The theorem of C5 from 0 to 1 in steps of a quarter: the sample that falls on the end
  is left out before the end is put behind.
\<close>

theorem grid_shape_witness:
  "(0::rat) < 1 \<and> (0::rat) < 1/4
   \<and> make_bounded_time_list 0 1 (1/4) = Inr [0, 1/4, 1/2, 3/4, 1]
   \<and> (\<exists>xs. make_bounded_time_list 0 1 (1/4) = Inr xs
           \<and> hd xs = 0 \<and> last xs = 1 \<and> count_list xs 0 = 1 \<and> count_list xs 1 = 1
           \<and> list_all (\<lambda>x. 0 < x \<and> x < 1) (butlast (tl xs))
           \<and> distinct xs \<and> sorted_wrt (<) xs)"
proof -
  have h: "(0::rat) < 1" "(0::rat) < 1/4" by simp_all
  have e: "make_bounded_time_list 0 1 (1/4) = Inr [0, 1/4, 1/2, 3/4, 1]"
    by (simp add: make_bounded_time_list_def get_off_list_def bounded_def upt_rec)
  from grid_shape[OF h] h e show ?thesis
    by (simp add: list_all_iff)
qed

text \<open>
  Claim C4.  When the step is not positive or the end is not after the start, the builder
  returns the error of its one call of the helper, and no list.
\<close>

theorem grid_fails:
  "step_size \<le> 0 \<or> end_time \<le> start_time \<Longrightarrow>
   make_bounded_time_list start_time end_time step_size = Inl ValueError"
  by (simp add: make_bounded_time_list_def get_off_list_def)

text \<open>The theorem of C4 at a zero step, a negative step, equal bounds and swapped bounds.\<close>

theorem grid_fails_witness:
  "make_bounded_time_list 0 1 0 = Inl ValueError
   \<and> make_bounded_time_list 0 1 (- 1) = Inl ValueError
   \<and> make_bounded_time_list 1 1 (1/4) = Inl ValueError
   \<and> make_bounded_time_list 2 1 (1/4) = Inl ValueError"
  using grid_fails[of 0 1 0] grid_fails[of "- 1" 1 0] grid_fails[of "1/4" 1 1]
    grid_fails[of "1/4" 1 2]
  by simp

subsection \<open>The catalog builder\<close>

text \<open>
  Claim C9.  When the start date is a string that the parser rejects with
  \<^verbatim>\<open>ValueError\<close>, the step returns no error: the effective start is the start of the
  current day and the effective end is that start plus the horizon length.
\<close>

theorem start_falls_back_to_today:
  assumes "start_date self = Some s" and "strptime s = Inl ValueError"
  shows "make_start_utc strptime get_start_day self =
           Inr (self\<lparr>start_utc := Some (get_start_day (today_utc self)),
                     end_utc := Some (get_start_day (today_utc self) + end_days self)\<rparr>)"
  using assms by (simp add: make_start_utc_def set_start_def)

text \<open>
  The theorem of C9 at the start date \<^verbatim>\<open>not-a-date\<close>, with a parser that accepts one
  date only, the start of a day as the whole part of the day count, the current time at
  noon of day 60500 and a horizon of one day.
\<close>

theorem start_falls_back_to_today_witness:
  "make_start_utc (\<lambda>s. if s = ''2024-01-01'' then Inr 60310 else Inl ValueError)
     (\<lambda>t. of_int \<lfloor>t\<rfloor>)
     \<lparr>start_date = Some ''not-a-date'', today_utc = 121001 / 2, start_utc = None, end_days = 1,
      end_utc = None, tles = [], chain_tles = False, active_sats = [], sat_list = None\<rparr>
   = Inr \<lparr>start_date = Some ''not-a-date'', today_utc = 121001 / 2, start_utc = Some 60500,
          end_days = 1, end_utc = Some 60501, tles = [], chain_tles = False, active_sats = [],
          sat_list = None\<rparr>"
  using start_falls_back_to_today [of
      "\<lparr>start_date = Some ''not-a-date'', today_utc = 121001 / 2, start_utc = None, end_days = 1,
        end_utc = None, tles = [], chain_tles = False, active_sats = [], sat_list = None\<rparr>"
      "''not-a-date''" "\<lambda>s. if s = ''2024-01-01'' then Inr 60310 else Inl ValueError"
      "\<lambda>t. of_int \<lfloor>t\<rfloor>"]
  by (simp add: floor_unique)

text \<open>
  Claim C2, at an input on which the source departs from it.  The overall end is 10 and
  the only record named A has its epoch at 12: all start dates of the group are filtered
  out, \<^verbatim>\<open>start_dates[-1]\<close> raises \<^verbatim>\<open>IndexError\<close>, and with it the whole list of slots,
  also when another group (B, with its epoch at 3) lies before the end.
\<close>

theorem discarded_group_raises:
  "chain_group (Some 10) [\<lparr>name = ''A'', jdsatepoch = 12, epoch = 12, elements = 0\<rparr>]
     = Inl IndexError
   \<and> make_sat_list
       \<lparr>start_date = Some ''2024-01-01'', today_utc = 60500, start_utc = Some 0, end_days = 10,
        end_utc = Some 10, tles = [], chain_tles = True,
        active_sats = [\<lparr>name = ''B'', jdsatepoch = 3, epoch = 3, elements = 0\<rparr>,
                       \<lparr>name = ''A'', jdsatepoch = 12, epoch = 12, elements = 0\<rparr>],
        sat_list = None\<rparr>
     = Inl IndexError"
  by (simp add: make_sat_list_def organized_sats_def chain_group_def)

text \<open>Every group of the grouping by name holds at least one record.\<close>

lemma set_update_subset: "set (AList.update k v al) \<subseteq> insert (k, v) (set al)"
  by (induction al) auto

lemma organized_step_nonempty:
  "list_all (\<lambda>(n, g). g \<noteq> []) d \<Longrightarrow>
   list_all (\<lambda>(n, g). g \<noteq> [])
     (AList.update (name sat) ((case map_of d (name sat) of None \<Rightarrow> [] | Some l \<Rightarrow> l) @ [sat]) d)"
  using set_update_subset[of "name sat" _ d] by (fastforce simp: list_all_iff)

lemma organized_fold_nonempty:
  "list_all (\<lambda>(n, g). g \<noteq> []) d \<Longrightarrow>
   list_all (\<lambda>(n, g). g \<noteq> [])
     (foldl (\<lambda>d sat. AList.update (name sat)
        ((case map_of d (name sat) of None \<Rightarrow> [] | Some l \<Rightarrow> l) @ [sat]) d) d sats)"
  by (induction sats arbitrary: d) (simp_all add: organized_step_nonempty)

lemma organized_nonempty: "list_all (\<lambda>(n, g). g \<noteq> []) (organized_sats sats)"
  unfolding organized_sats_def by (rule organized_fold_nonempty) simp

lemma length_numpy_diff: "length (numpy_diff xs) = length xs - 1"
  by (induction xs rule: numpy_diff.induct) simp_all

lemma nth_numpy_diff: "Suc i < length xs \<Longrightarrow> numpy_diff xs ! i = xs ! Suc i - xs ! i"
proof (induction xs arbitrary: i rule: numpy_diff.induct)
  case (1 a b xs)
  then show ?case by (cases i) simp_all
qed simp_all

lemma chain_group_all_before:
  assumes "sats \<noteq> []" and "\<forall>sat\<in>set sats. epoch sat < end_time"
  shows "chain_group (Some end_time) sats =
           Inr (zip (map epoch (sort_key jdsatepoch sats))
                  (zip (numpy_diff (map epoch (sort_key jdsatepoch sats))
                          @ [end_time - last (map epoch (sort_key jdsatepoch sats))])
                     (sort_key jdsatepoch sats)))"
proof -
  have "filter (\<lambda>x. x < end_time) (map epoch (sort_key jdsatepoch sats))
          = map epoch (sort_key jdsatepoch sats)"
    using assms(2) by (intro filter_True) auto
  moreover have "sort_key jdsatepoch sats \<noteq> []"
    using assms(1) by (metis length_0_conv length_sort)
  ultimately show ?thesis
    by (simp add: chain_group_def Let_def)
qed

text \<open>
  The loop body on one group, N records, N at least one, whose epochs all lie before the
  overall end: N slots, one for each record in the order of the sort; the duration of each
  slot but the last is the gap to the start of the next slot, and the duration of the last
  is the time from its start to the overall end.  When the sort by \<^verbatim>\<open>model.jdsatepoch\<close>
  puts the \<^verbatim>\<open>epoch\<close> attributes in ascending order, the first window starts at the
  earliest epoch and no duration is negative.
\<close>

lemma chain_group_before_end:
  assumes "sats \<noteq> []" and "\<forall>sat\<in>set sats. epoch sat < end_time"
  shows "\<exists>slots. chain_group (Some end_time) sats = Inr slots
           \<and> length slots = length sats
           \<and> map (\<lambda>slot. snd (snd slot)) slots = sort_key jdsatepoch sats
           \<and> map fst slots = map epoch (sort_key jdsatepoch sats)
           \<and> (\<forall>i. Suc i < length slots \<longrightarrow>
                  fst (snd (slots ! i)) = fst (slots ! Suc i) - fst (slots ! i))
           \<and> fst (snd (last slots)) = end_time - fst (last slots)
           \<and> (sorted (map epoch (sort_key jdsatepoch sats)) \<longrightarrow>
                  fst (hd slots) = Min (epoch ` set sats)
                  \<and> (\<forall>slot\<in>set slots. 0 \<le> fst (snd slot)))"
proof -
  let ?ss = "sort_key jdsatepoch sats"
  let ?S = "map epoch ?ss"
  let ?D = "numpy_diff ?S @ [end_time - last ?S]"
  let ?slots = "zip ?S (zip ?D ?ss)"
  have n: "length sats \<noteq> 0" using assms(1) by simp
  have lS: "length ?S = length sats" by simp
  have lD: "length ?D = length sats" using n by (simp add: length_numpy_diff)
  have lsl: "length ?slots = length sats" using lD by simp
  have r: "chain_group (Some end_time) sats = Inr ?slots"
    by (rule chain_group_all_before[OF assms])
  have f: "map fst ?slots = ?S" using lD by (simp add: map_fst_zip)
  have nth: "?slots ! i = (?S ! i, ?D ! i, ?ss ! i)" if "i < length sats" for i
    using that lD by simp
  have s: "map (\<lambda>slot. snd (snd slot)) ?slots = ?ss"
  proof (rule nth_equalityI)
    show "length (map (\<lambda>slot. snd (snd slot)) ?slots) = length ?ss"
      using lsl by simp
  next
    fix i assume "i < length (map (\<lambda>slot. snd (snd slot)) ?slots)"
    then have "i < length sats" using lsl by simp
    from nth[OF this] this lsl show "map (\<lambda>slot. snd (snd slot)) ?slots ! i = ?ss ! i"
      by (simp del: nth_zip)
  qed
  have Dlast: "?D ! (length sats - 1) = end_time - last ?S"
    using n by (simp add: nth_append length_numpy_diff)
  have Dnth: "?D ! i = ?S ! Suc i - ?S ! i" if "Suc i < length sats" for i
  proof -
    from that have "i < length (numpy_diff ?S)" by (simp add: length_numpy_diff)
    then have "?D ! i = numpy_diff ?S ! i" by (simp add: nth_append)
    with that show ?thesis by (simp add: nth_numpy_diff)
  qed
  have gap: "\<forall>i. Suc i < length ?slots \<longrightarrow>
               fst (snd (?slots ! i)) = fst (?slots ! Suc i) - fst (?slots ! i)"
  proof (intro allI impI)
    fix i assume "Suc i < length ?slots"
    then have i: "Suc i < length sats" using lsl by simp
    then have "i < length sats" by simp
    from nth[OF this] nth[OF i] Dnth[OF i]
    show "fst (snd (?slots ! i)) = fst (?slots ! Suc i) - fst (?slots ! i)" by simp
  qed
  have ne: "?slots \<noteq> []" using lsl n by (metis length_0_conv)
  have Sne: "?S \<noteq> []" using lS n by (metis length_0_conv)
  have lst: "fst (snd (last ?slots)) = end_time - fst (last ?slots)"
  proof -
    have i: "length sats - 1 < length sats" using n by simp
    have "last ?slots = ?slots ! (length sats - 1)"
      using ne lsl by (simp add: last_conv_nth)
    with nth[OF i] have "last ?slots = (?S ! (length sats - 1), ?D ! (length sats - 1),
        ?ss ! (length sats - 1))" by simp
    moreover have "last ?S = ?S ! (length sats - 1)"
      using last_conv_nth[OF Sne] by simp
    ultimately show ?thesis using Dlast by simp
  qed
  have srt: "fst (hd ?slots) = Min (epoch ` set sats) \<and> (\<forall>slot\<in>set ?slots. 0 \<le> fst (snd slot))"
    if so: "sorted ?S"
  proof
    from Sne obtain x xs where x: "?S = x # xs" by (auto simp: neq_Nil_conv)
    with so have "\<forall>y\<in>set ?S. x \<le> y" by auto
    then have "Min (set ?S) = x"
      using x by (intro Min_eqI) (auto simp del: set_map set_sort)
    with x have "hd ?S = Min (set ?S)" by simp
    moreover have "fst (hd ?slots) = hd ?S"
      using ne f by (metis hd_map)
    ultimately show "fst (hd ?slots) = Min (epoch ` set sats)" by simp
  next
    show "\<forall>slot\<in>set ?slots. 0 \<le> fst (snd slot)"
    proof
      fix slot assume "slot \<in> set ?slots"
      then obtain i where i: "i < length sats" "slot = ?slots ! i"
        using lsl by (metis in_set_conv_nth)
      show "0 \<le> fst (snd slot)"
      proof (cases "Suc i < length sats")
        case True
        then have "?S ! i \<le> ?S ! Suc i"
          using so by (intro sorted_nth_mono) simp_all
        with i nth[OF i(1)] Dnth[OF True] show ?thesis by simp
      next
        case False
        with i have "i = length sats - 1" by simp
        moreover have "last ?S \<in> set ?S" using Sne by (rule last_in_set)
        then have "last ?S < end_time" using assms(2) by auto
        ultimately show ?thesis using i nth[OF i(1)] Dlast by simp
      qed
    qed
  qed
  from r lsl s f gap lst srt show ?thesis
    by (intro exI[of _ ?slots]) simp
qed

text \<open>
  Claim C6, at an input on which the source departs from it.  The overall end is 10.  The
  group B holds two records with the epochs 6 and 3, both before the end, and for it the
  loop body gives the two windows from 3 to 6 and from 6 to 10.  The group A holds one
  record with the epoch 12: for it the loop body raises \<^verbatim>\<open>IndexError\<close>, the loop over
  the groups ends there, and the list of slots is not built, so that the group B gets no
  slot.
\<close>

theorem group_before_end_gets_no_slot:
  "list_all (\<lambda>sat. epoch sat < 10) [elset ''B'' 6 6 0, elset ''B'' 3 3 0]
   \<and> map snd (organized_sats [elset ''B'' 6 6 0, elset ''A'' 12 12 0, elset ''B'' 3 3 0])
        = [[elset ''B'' 6 6 0, elset ''B'' 3 3 0], [elset ''A'' 12 12 0]]
   \<and> chain_group (Some 10) [elset ''B'' 6 6 0, elset ''B'' 3 3 0]
        = Inr [(3, 3, elset ''B'' 3 3 0), (6, 4, elset ''B'' 6 6 0)]
   \<and> chain_group (Some 10) [elset ''A'' 12 12 0] = Inl IndexError
   \<and> make_sat_list
        \<lparr>start_date = Some ''2024-01-01'', today_utc = 60500, start_utc = Some 0,
         end_days = 10, end_utc = Some 10, tles = [], chain_tles = True,
         active_sats = [elset ''B'' 6 6 0, elset ''A'' 12 12 0, elset ''B'' 3 3 0],
         sat_list = None\<rparr>
        = Inl IndexError"
  by (simp add: make_sat_list_def organized_sats_def chain_group_def elset_def)

lemma keyed_update: "keyed al \<Longrightarrow> keyed (AList.update (sat_key v) v al)"
  by (induction al) (auto simp: keyed_def)

lemma keyed_fold: "keyed d \<Longrightarrow> keyed (foldl upd d xs)"
  by (induction xs arbitrary: d) (simp_all add: keyed_update)

lemma distinct_fold: "distinct (map fst d) \<Longrightarrow> distinct (map fst (foldl upd d xs))"
  by (induction xs arbitrary: d) (simp_all add: distinct_update)

lemma dom_fold: "fst ` set (foldl upd d xs) = fst ` set d \<union> sat_key ` set xs"
  by (induction xs arbitrary: d) (auto simp: dom_update)

lemma find_app:
  "find P (xs @ ys) = (case find P xs of None \<Rightarrow> find P ys | Some x \<Rightarrow> Some x)"
  by (induction xs) simp_all

lemma map_of_fold:
  "map_of (foldl upd d xs) k =
     (case find (\<lambda>r. sat_key r = k) (rev xs) of Some r \<Rightarrow> Some r | None \<Rightarrow> map_of d k)"
proof (induction xs arbitrary: d)
  case Nil
  then show ?case by simp
next
  case (Cons x xs)
  show ?case
    by (simp add: Cons.IH find_app update_conv' split: option.split)
qed

lemma find_keyed: "keyed al \<Longrightarrow> find (\<lambda>r. sat_key r = k) (map snd al) = map_of al k"
  by (induction al) (auto simp: keyed_def)

lemma keys_keyed: "keyed al \<Longrightarrow> map sat_key (map snd al) = map fst al"
  by (induction al) (auto simp: keyed_def)

lemma update_fresh: "k \<notin> fst ` set al \<Longrightarrow> AList.update k v al = al @ [(k, v)]"
  by (induction al) auto

lemma fold_fresh:
  "distinct (map sat_key ys) \<Longrightarrow> sat_key ` set ys \<inter> fst ` set d = {} \<Longrightarrow>
   foldl upd d ys = d @ map (\<lambda>s. (sat_key s, s)) ys"
proof (induction ys arbitrary: d)
  case Nil
  then show ?case by simp
next
  case (Cons y ys)
  from Cons.prems have f: "sat_key y \<notin> fst ` set d" by auto
  have "foldl upd (d @ [(sat_key y, y)]) ys = (d @ [(sat_key y, y)]) @ map (\<lambda>s. (sat_key s, s)) ys"
    using Cons.prems by (intro Cons.IH) auto
  with f show ?case by (simp add: update_fresh)
qed

lemma keys_fold_same:
  "sat_key ` set xs \<subseteq> fst ` set d \<Longrightarrow> map fst (foldl upd d xs) = map fst d"
proof (induction xs arbitrary: d)
  case Nil
  then show ?case by simp
next
  case (Cons x xs)
  from Cons.prems have k: "map fst (upd d x) = map fst d"
    by (auto simp: update_keys)
  then have "fst ` set (upd d x) = fst ` set d"
    by (metis set_map)
  with Cons.prems have "sat_key ` set xs \<subseteq> fst ` set (upd d x)" by simp
  from Cons.IH[OF this] k show ?case by simp
qed

lemma alist_ext:
  assumes "distinct (map fst a)" and "map fst a = map fst b" and "map_of a = map_of b"
  shows "a = b"
proof (rule nth_equalityI)
  show l: "length a = length b" using assms(2) by (metis length_map)
  fix i assume i: "i < length a"
  have d: "distinct (map fst b)" using assms(1,2) by simp
  from i have "a ! i \<in> set a" by simp
  then have "map_of a (fst (a ! i)) = Some (snd (a ! i))"
    using assms(1) by simp
  moreover from i l have "b ! i \<in> set b" by simp
  then have "map_of b (fst (b ! i)) = Some (snd (b ! i))"
    using d by simp
  moreover have "fst (a ! i) = fst (b ! i)"
    using assms(2) i l by (metis nth_map)
  ultimately show "a ! i = b ! i"
    using assms(3) by (simp add: prod_eq_iff)
qed

lemma keyed_uniq: "keyed (uniq_sats xs)"
  unfolding uniq_sats_def by (rule keyed_fold) (simp add: keyed_def)

lemma keys_uniq: "map sat_key (dedup xs) = map fst (uniq_sats xs)"
  unfolding dedup_def by (rule keys_keyed[OF keyed_uniq])

lemma distinct_dedup: "distinct (map sat_key (dedup xs))"
  unfolding keys_uniq uniq_sats_def by (rule distinct_fold) simp

lemma keys_dedup: "set (map sat_key (dedup xs)) = sat_key ` set xs"
  unfolding keys_uniq uniq_sats_def using dom_fold[of "[]" xs] by simp

lemma find_dedup:
  "find (\<lambda>r. sat_key r = k) (dedup xs) = find (\<lambda>r. sat_key r = k) (rev xs)"
proof -
  have "find (\<lambda>r. sat_key r = k) (dedup xs) = map_of (uniq_sats xs) k"
    unfolding dedup_def by (rule find_keyed[OF keyed_uniq])
  then show ?thesis
    by (simp add: uniq_sats_def map_of_fold split: option.split)
qed

lemma one_per_key:
  assumes "sat \<in> set xs"
  shows "length (filter (\<lambda>r. sat_key r = sat_key sat) (dedup xs)) = 1"
proof -
  let ?ks = "map sat_key (dedup xs)"
  have "length (filter (\<lambda>r. sat_key r = sat_key sat) (dedup xs))
          = length (filter (\<lambda>k. k = sat_key sat) ?ks)"
    by (simp add: filter_map comp_def)
  also have "\<dots> = card ({k. k = sat_key sat} \<inter> set ?ks)"
    using distinct_dedup by (rule distinct_length_filter)
  also have "{k. k = sat_key sat} \<inter> set ?ks = {sat_key sat}"
    using assms unfolding keys_dedup by auto
  finally show ?thesis by simp
qed

lemma dedup_subset: "set (dedup xs) \<subseteq> set xs"
proof
  fix r assume "r \<in> set (dedup xs)"
  then have "find (\<lambda>s. sat_key s = sat_key r) (dedup xs) \<noteq> None"
    by (auto simp: find_None_iff)
  then obtain s where s: "find (\<lambda>s. sat_key s = sat_key r) (dedup xs) = Some s" by auto
  then have "s \<in> set (dedup xs)" "sat_key s = sat_key r"
    by (auto simp: find_Some_iff)
  with \<open>r \<in> set (dedup xs)\<close> distinct_dedup[of xs] have "s = r"
    by (metis distinct_map inj_onD)
  with s have "find (\<lambda>s. sat_key s = sat_key r) (rev xs) = Some r"
    by (simp add: find_dedup)
  then have "r \<in> set (rev xs)" by (metis find_Some_iff nth_mem)
  then show "r \<in> set xs" by simp
qed

lemma dedup_idem: "dedup (dedup xs) = dedup xs"
proof -
  have "foldl upd [] (dedup xs) = [] @ map (\<lambda>s. (sat_key s, s)) (dedup xs)"
    by (rule fold_fresh) (simp_all add: distinct_dedup)
  then show ?thesis
    by (simp add: dedup_def[of "dedup xs"] uniq_sats_def comp_def)
qed

lemma dedup_twice: "dedup (xs @ xs) = dedup xs"
proof -
  let ?a = "foldl upd [] xs"
  let ?b = "foldl upd ?a xs"
  have "?b = ?a"
  proof (rule alist_ext[symmetric])
    show "distinct (map fst ?a)" by (simp add: distinct_fold)
    show "map fst ?a = map fst ?b"
      by (rule keys_fold_same[symmetric]) (simp add: dom_fold)
    show "map_of ?a = map_of ?b"
      by (rule ext) (simp add: map_of_fold split: option.split)
  qed
  then show ?thesis by (simp add: dedup_def uniq_sats_def)
qed

text \<open>
  Claim C8, as amended.  Deduplication is keyed on the pair of the name and
  \<^verbatim>\<open>model.jdsatepoch\<close>.  After it the keys of the records are distinct; for every loaded
  record exactly one record of the result has its key; every record of the result is a
  loaded record; the record of the result with a given key is the last loaded record with
  that key (the first in the reversed concatenation); deduplicating the result again, or
  the concatenation loaded twice, changes nothing; and the active records of the factory
  are the deduplicated concatenation of what the sources yield.
\<close>

theorem dedup_last_wins:
  "distinct (map sat_key (dedup xs))
   \<and> (\<forall>sat\<in>set xs. length (filter (\<lambda>r. sat_key r = sat_key sat) (dedup xs)) = 1)
   \<and> set (dedup xs) \<subseteq> set xs
   \<and> find (\<lambda>r. sat_key r = k) (dedup xs) = find (\<lambda>r. sat_key r = k) (rev xs)
   \<and> dedup (dedup xs) = dedup xs
   \<and> dedup (xs @ xs) = dedup xs
   \<and> active_sats (make_active_sats load self)
        = dedup (concat (map (load (start_utc self)) (tles self)))"
  using distinct_dedup one_per_key dedup_subset find_dedup dedup_idem dedup_twice
  by (simp add: make_active_sats_def)

text \<open>
  The theorem of C8 at four loaded records.  The first and the third have the name A and
  the same \<^verbatim>\<open>jdsatepoch\<close> and differ in their epochs and elements: the third is kept, at
  the place of the first.
\<close>

theorem dedup_last_wins_witness:
  "elset ''A'' 1 (5/4) 0
     \<in> set [elset ''A'' 1 (5/4) 0, elset ''B'' 1 (3/2) 0, elset ''A'' 1 (7/4) 7, elset ''A'' 2 (9/4) 0]
   \<and> length (filter (\<lambda>r. sat_key r = sat_key (elset ''A'' 1 (5/4) 0))
        (dedup [elset ''A'' 1 (5/4) 0, elset ''B'' 1 (3/2) 0, elset ''A'' 1 (7/4) 7,
                elset ''A'' 2 (9/4) 0])) = 1
   \<and> find (\<lambda>r. sat_key r = (''A'', 1))
        (dedup [elset ''A'' 1 (5/4) 0, elset ''B'' 1 (3/2) 0, elset ''A'' 1 (7/4) 7,
                elset ''A'' 2 (9/4) 0]) = Some (elset ''A'' 1 (7/4) 7)
   \<and> distinct (map sat_key
        (dedup [elset ''A'' 1 (5/4) 0, elset ''B'' 1 (3/2) 0, elset ''A'' 1 (7/4) 7,
                elset ''A'' 2 (9/4) 0]))
   \<and> dedup [elset ''A'' 1 (5/4) 0, elset ''B'' 1 (3/2) 0, elset ''A'' 1 (7/4) 7,
             elset ''A'' 2 (9/4) 0]
        = [elset ''A'' 1 (7/4) 7, elset ''B'' 1 (3/2) 0, elset ''A'' 2 (9/4) 0]"
proof -
  let ?xs = "[elset ''A'' 1 (5/4) 0, elset ''B'' 1 (3/2) 0, elset ''A'' 1 (7/4) 7,
              elset ''A'' 2 (9/4) 0]"
  note t = dedup_last_wins[of ?xs "(''A'', 1)"]
  have m: "elset ''A'' 1 (5/4) 0 \<in> set ?xs" by simp
  from t have "\<forall>sat\<in>set ?xs. length (filter (\<lambda>r. sat_key r = sat_key sat) (dedup ?xs)) = 1"
    by blast
  with m have one:
    "length (filter (\<lambda>r. sat_key r = sat_key (elset ''A'' 1 (5/4) 0)) (dedup ?xs)) = 1"
    by blast
  from t have "find (\<lambda>r. sat_key r = (''A'', 1)) (dedup ?xs)
      = find (\<lambda>r. sat_key r = (''A'', 1)) (rev ?xs)" by blast
  also have "\<dots> = Some (elset ''A'' 1 (7/4) 7)"
    by (simp add: sat_key_def elset_def)
  finally have f:
    "find (\<lambda>r. sat_key r = (''A'', 1)) (dedup ?xs) = Some (elset ''A'' 1 (7/4) 7)" .
  from t have d: "distinct (map sat_key (dedup ?xs))" by blast
  have e: "dedup ?xs = [elset ''A'' 1 (7/4) 7, elset ''B'' 1 (3/2) 0, elset ''A'' 2 (9/4) 0]"
    by (simp add: dedup_def uniq_sats_def sat_key_def elset_def)
  from m one f d e show ?thesis by blast
qed

text \<open>
  Claim C8 as stated fails.  Two loaded records of the name A have the epochs 5/4 and 7/4,
  so their keys of name and epoch differ, and the same \<^verbatim>\<open>jdsatepoch\<close>.  The source
  keeps the second only: the key of name and epoch of the first has no record in the
  result, where the claim has exactly one.
\<close>

theorem epoch_key_counterexample:
  "claimed_key (elset ''A'' 1 (5/4) 0) \<noteq> claimed_key (elset ''A'' 1 (7/4) 1)
   \<and> dedup [elset ''A'' 1 (5/4) 0, elset ''A'' 1 (7/4) 1] = [elset ''A'' 1 (7/4) 1]
   \<and> length (filter (\<lambda>r. claimed_key r = claimed_key (elset ''A'' 1 (5/4) 0))
        (dedup [elset ''A'' 1 (5/4) 0, elset ''A'' 1 (7/4) 1])) = 0"
  by (simp add: dedup_def uniq_sats_def sat_key_def claimed_key_def elset_def)

end
